theory Spec2Isabelle
  imports Complex_Main "HOL-Library.Product_Lexorder" "HOL-Library.Sublist" "HOL-Library.Multiset"
begin

section \<open>Conventions of the embedding\<close>

text \<open>
  The program is a single Python script (\<^verbatim>\<open>Tarefa_Brou.py\<close>) that runs top to bottom.
  Each block of the script that takes a decision is embedded as a function of the values
  the block reads. Python floats are modelled as exact reals: comparisons are the
  comparisons of the script, \<^verbatim>\<open>np.inf\<close> is written out where the script uses it
  (\<open>None\<close> of a \<open>real option\<close>), and NaN and rounding are outside the model.
  Library calls (\<^verbatim>\<open>scipy.stats.boxcox\<close>, \<^verbatim>\<open>statsmodels.OLS(...).fit()\<close>,
  \<^verbatim>\<open>acorr_ljungbox\<close>) are parameters of the functions that call them. A library call
  that may raise returns a sum, \<open>Inl\<close> carrying the exception; the script catches an
  exception in exactly one place (section 3), everywhere else it propagates.
\<close>

datatype exn = ValueError | KeyError | LinAlgError


section \<open>Section 0 of the script: the factor list\<close>

text \<open>
  \<^verbatim>\<open>factors = [c for c in base_factors if c in fff.columns]\<close>: the factor universe is the
  part of a fixed list of eight names that the data file has columns for. The functions
  of section 4 below take any list of names as \<open>factors\<close>.
\<close>

definition base_factors :: "string list" where
  "base_factors = [''Rm-Rf'', ''SMB'', ''HML'', ''RMW'', ''CMA'', ''Mom'', ''ST_Rev'', ''LT_Rev'']"

definition factors_of :: "string list \<Rightarrow> string list" where
  "factors_of columns = filter (\<lambda>c. c \<in> set columns) base_factors"

section \<open>Section 3 of the script: the Box-Cox decision\<close>

text \<open>
  \<^verbatim>\<open>min_y = y0.min()\<close>: the minimum of a pandas series; on an empty series pandas answers
  NaN, here \<open>None\<close>.
\<close>

fun series_min :: "real list \<Rightarrow> real option" where
  "series_min [] = None"
| "series_min (y # ys) = Some (fold min ys y)"

text \<open>
  \<^verbatim>\<open>shift = 1e-6 - min_y if min_y <= 0 else 0.0\<close>. A comparison with NaN is false, so an
  empty series takes the \<^verbatim>\<open>else\<close> branch.
\<close>

definition shift :: "real list \<Rightarrow> real" where
  "shift y0 =
     (case series_min y0 of
        None \<Rightarrow> 0
      | Some min_y \<Rightarrow> if min_y \<le> 0 then 1 / 1000000 - min_y else 0)"

text \<open>\<^verbatim>\<open>y_pos = y0 + shift\<close>: the shift is added to every observation.\<close>

definition y_pos :: "real list \<Rightarrow> real list" where
  "y_pos y0 = map (\<lambda>y. y + shift y0) y0"



section \<open>Section 4.1 of the script: the search over all subsets\<close>

text \<open>
  What the script reads of a fitted model: \<^verbatim>\<open>m.aic\<close>, \<^verbatim>\<open>m.bic\<close> and \<^verbatim>\<open>m.rsquared\<close>.
\<close>

record fitres =
  aic :: real
  bic :: real
  rsquared :: real


text \<open>
  \<^verbatim>\<open>itertools.combinations(factors, k)\<close>: the \<open>k\<close>-element subsequences, in lexicographic
  order of their positions.
\<close>

fun combinations :: "'a list \<Rightarrow> nat \<Rightarrow> 'a list list" where
  "combinations xs 0 = [[]]"
| "combinations [] (Suc k) = []"
| "combinations (x # xs) (Suc k) = map ((#) x) (combinations xs k) @ combinations xs (Suc k)"

text \<open>
  The two nested \<^verbatim>\<open>for\<close> loops visit the pairs \<^verbatim>\<open>(k, subset)\<close> in this order.
\<close>

definition subsets :: "'v list \<Rightarrow> (nat \<times> 'v list) list" where
  "subsets factors =
     concat (map (\<lambda>k. map (Pair k) (combinations factors k)) [1..<length factors + 1])"

text \<open>One dictionary appended to \<^verbatim>\<open>results_subset\<close>.\<close>

record 'v row =
  vars :: "'v list"
  k_size :: nat
  AIC :: real
  BIC :: real
  R2 :: real

text \<open>The dictionary built from the pair \<^verbatim>\<open>(k, subset)\<close> and the fitted model \<open>m\<close>.\<close>

definition row_of :: "nat \<times> 'v list \<Rightarrow> fitres \<Rightarrow> 'v row" where
  "row_of p m = \<lparr>vars = snd p, k_size = fst p, AIC = aic m, BIC = bic m, R2 = rsquared m\<rparr>"

text \<open>
  The loop body fits and appends; nothing catches an exception of the fit, so the first
  one ends the loop (and the script).
\<close>

fun fit_all :: "('v list \<Rightarrow> exn + fitres) \<Rightarrow> (nat \<times> 'v list) list \<Rightarrow> exn + 'v row list" where
  "fit_all fit [] = Inr []"
| "fit_all fit ((k, sub) # rest) =
     (case fit sub of
        Inl e \<Rightarrow> Inl e
      | Inr m \<Rightarrow>
          (case fit_all fit rest of
             Inl e \<Rightarrow> Inl e
           | Inr rows \<Rightarrow> Inr (row_of (k, sub) m # rows)))"

definition results_subset :: "('v list \<Rightarrow> exn + fitres) \<Rightarrow> 'v list \<Rightarrow> exn + 'v row list" where
  "results_subset fit factors = fit_all fit (subsets factors)"

text \<open>
  A pandas data frame is modelled as its rows, each with its index label, in their
  current order. \<^verbatim>\<open>pd.DataFrame(rows)\<close> labels the rows \<open>0, 1, 2, \<dots>\<close>;
  \<^verbatim>\<open>reset_index(drop=True)\<close> relabels them so in their current order;
  \<^verbatim>\<open>sort_values\<close> reorders the rows and keeps each row's label;
  \<^verbatim>\<open>.loc[l]\<close> looks a row up by its label, not by its position, and raises
  \<^verbatim>\<open>KeyError\<close> when no row has it.
\<close>

type_synonym 'r frame = "(nat \<times> 'r) list"

definition DataFrame :: "'r list \<Rightarrow> 'r frame" where
  "DataFrame rows = zip [0..<length rows] rows"

definition reset_index :: "'r frame \<Rightarrow> 'r frame" where
  "reset_index df = zip [0..<length df] (map snd df)"

text \<open>
  \<^verbatim>\<open>pd.DataFrame([])\<close> has no columns at all, so sorting it by a column name raises
  \<^verbatim>\<open>KeyError\<close>; the only empty frame of the script is that one. Sorting by several
  columns is stable in pandas; sorting by one column need not be, and the model uses the
  stable sort there too (the script only reads that frame by label).
\<close>

definition sort_values :: "('r \<Rightarrow> 'o::linorder) \<Rightarrow> 'r frame \<Rightarrow> exn + 'r frame" where
  "sort_values key df =
     (if df = [] then Inl KeyError else Inr (sort_key (\<lambda>lr. key (snd lr)) df))"

definition loc :: "'r frame \<Rightarrow> nat \<Rightarrow> exn + 'r" where
  "loc df l = (case map_of df l of None \<Rightarrow> Inl KeyError | Some r \<Rightarrow> Inr r)"

text \<open>
  \<^verbatim>\<open>res_df = pd.DataFrame(results_subset).sort_values(["AIC","BIC"]).reset_index(drop=True)\<close>
\<close>

definition res_df :: "('v list \<Rightarrow> exn + fitres) \<Rightarrow> 'v list \<Rightarrow> exn + 'v row frame" where
  "res_df fit factors =
     (case results_subset fit factors of
        Inl e \<Rightarrow> Inl e
      | Inr rows \<Rightarrow>
          (case sort_values (\<lambda>r. (AIC r, BIC r)) (DataFrame rows) of
             Inl e \<Rightarrow> Inl e
           | Inr sorted_df \<Rightarrow> Inr (reset_index sorted_df)))"

text \<open>\<^verbatim>\<open>best_aic_vars = list(res_df.loc[0,"vars"])\<close>\<close>

definition best_aic_vars :: "('v list \<Rightarrow> exn + fitres) \<Rightarrow> 'v list \<Rightarrow> exn + 'v list" where
  "best_aic_vars fit factors =
     (case res_df fit factors of
        Inl e \<Rightarrow> Inl e
      | Inr df \<Rightarrow> (case loc df 0 of Inl e \<Rightarrow> Inl e | Inr r \<Rightarrow> Inr (vars r)))"

text \<open>\<^verbatim>\<open>best_bic_vars = list(res_df.sort_values("BIC").loc[0,"vars"])\<close>\<close>

definition best_bic_vars :: "('v list \<Rightarrow> exn + fitres) \<Rightarrow> 'v list \<Rightarrow> exn + 'v list" where
  "best_bic_vars fit factors =
     (case res_df fit factors of
        Inl e \<Rightarrow> Inl e
      | Inr df \<Rightarrow>
          (case sort_values BIC df of
             Inl e \<Rightarrow> Inl e
           | Inr by_bic \<Rightarrow> (case loc by_bic 0 of Inl e \<Rightarrow> Inl e | Inr r \<Rightarrow> Inr (vars r))))"

text \<open>
  \<^verbatim>\<open>final_vars = best_bic_vars if len(best_bic_vars)>0 else factors\<close>, evaluated after the
  statements that compute \<^verbatim>\<open>best_aic_vars\<close> and \<^verbatim>\<open>best_bic_vars\<close>.
\<close>

definition final_vars :: "('v list \<Rightarrow> exn + fitres) \<Rightarrow> 'v list \<Rightarrow> exn + 'v list" where
  "final_vars fit factors =
     (case best_aic_vars fit factors of
        Inl e \<Rightarrow> Inl e
      | Inr a \<Rightarrow>
          (case best_bic_vars fit factors of
             Inl e \<Rightarrow> Inl e
           | Inr b \<Rightarrow> Inr (if length b > 0 then b else factors)))"

section \<open>Sections 4.2 to 4.4 of the script: forward, backward and stepwise search\<close>

text \<open>
  \<^verbatim>\<open>remaining\<close> is a Python set. A set is modelled as the list of its elements, each once.
  Python does not fix the order in which \<^verbatim>\<open>list(remaining)\<close> lists them, so that order is
  a parameter \<open>order\<close> of the model: \<^verbatim>\<open>list(s)\<close> is \<open>order s\<close> whenever \<open>order s\<close> has
  exactly the elements of \<open>s\<close>, each once, and \<open>s\<close> itself otherwise. Every theorem below
  holds for every \<open>order\<close>.
\<close>

definition list_of_set :: "('v list \<Rightarrow> 'v list) \<Rightarrow> 'v list \<Rightarrow> 'v list" where
  "list_of_set order s = (if set (order s) = set s \<and> distinct (order s) then order s else s)"

text \<open>\<^verbatim>\<open>s.add(v)\<close> on a set.\<close>

definition set_add :: "'v \<Rightarrow> 'v list \<Rightarrow> 'v list" where
  "set_add v s = (if v \<in> set s then s else s @ [v])"

text \<open>
  \<^verbatim>\<open>best_aic < current_aic - 1e-8\<close>, where \<^verbatim>\<open>current_aic\<close> is \<^verbatim>\<open>np.inf\<close> (here \<open>None\<close>)
  until a variable has been added.
\<close>

definition improves :: "real \<Rightarrow> real option \<Rightarrow> bool" where
  "improves best_aic current_aic =
     (case current_aic of None \<Rightarrow> True | Some c \<Rightarrow> best_aic < c - 1 / 100000000)"

text \<open>
  \<^verbatim>\<open>min(xs, key=...)\<close>: the first element with the least key; \<^verbatim>\<open>ValueError\<close> on an empty
  list.
\<close>

fun min_by :: "('a \<Rightarrow> real) \<Rightarrow> 'a list \<Rightarrow> exn + 'a" where
  "min_by key [] = Inl ValueError"
| "min_by key (x # xs) = Inr (fold (\<lambda>c best. if key c < key best then c else best) xs x)"

text \<open>
  The inner \<^verbatim>\<open>for var in list(remaining)\<close> loop of the forward search (and of the
  stepwise search's inclusion phase): one fit per unused variable.
\<close>

fun aic_candidates ::
  "('v list \<Rightarrow> exn + fitres) \<Rightarrow> 'v list \<Rightarrow> 'v list \<Rightarrow> exn + (real \<times> 'v) list" where
  "aic_candidates fit selected [] = Inr []"
| "aic_candidates fit selected (var # rest) =
     (case fit (selected @ [var]) of
        Inl e \<Rightarrow> Inl e
      | Inr m \<Rightarrow>
          (case aic_candidates fit selected rest of
             Inl e \<Rightarrow> Inl e
           | Inr cs \<Rightarrow> Inr ((aic m, var) # cs)))"

text \<open>
  The \<^verbatim>\<open>while remaining:\<close> loop of section 4.2. \<^verbatim>\<open>remaining.remove(best_var)\<close> raises
  \<^verbatim>\<open>KeyError\<close> when the set does not hold the element. The loop's result is the pair
  \<^verbatim>\<open>(selected_fwd, current_aic)\<close>.
\<close>

function fwd_loop ::
  "('v list \<Rightarrow> exn + fitres) \<Rightarrow> ('v list \<Rightarrow> 'v list) \<Rightarrow> 'v list \<Rightarrow> 'v list \<Rightarrow> real option \<Rightarrow>
   exn + 'v list \<times> real option" where
  "fwd_loop fit order remaining selected current_aic =
     (if remaining = [] then Inr (selected, current_aic)
      else
        (case aic_candidates fit selected (list_of_set order remaining) of
           Inl e \<Rightarrow> Inl e
         | Inr cands \<Rightarrow>
             (case min_by fst cands of
                Inl e \<Rightarrow> Inl e
              | Inr (best_aic, best_var) \<Rightarrow>
                  if improves best_aic current_aic then
                    (if best_var \<in> set remaining then
                       fwd_loop fit order (remove1 best_var remaining) (selected @ [best_var])
                         (Some best_aic)
                     else Inl KeyError)
                  else Inr (selected, current_aic))))"
  by pat_completeness auto
termination
  by (relation "measure (\<lambda>(fit, order, remaining, selected, current_aic). length remaining)")
     (auto simp: length_remove1 intro!: diff_less)

declare fwd_loop.simps [simp del]

text \<open>
  \<^verbatim>\<open>remaining = set(factors); selected_fwd = []; current_aic = np.inf\<close>, then the loop.
\<close>

definition selected_fwd ::
  "('v list \<Rightarrow> exn + fitres) \<Rightarrow> ('v list \<Rightarrow> 'v list) \<Rightarrow> 'v list \<Rightarrow> exn + 'v list \<times> real option" where
  "selected_fwd fit order factors = fwd_loop fit order (remdups factors) [] None"

text \<open>
  Section 4.3. The inner loop fits, for each variable of the current selection, the
  selection without it (\<^verbatim>\<open>[v for v in selected_bwd if v != var]\<close>).
\<close>

fun aic_drop ::
  "('v list \<Rightarrow> exn + fitres) \<Rightarrow> 'v list \<Rightarrow> 'v list \<Rightarrow> exn + (real \<times> 'v) list" where
  "aic_drop fit selected [] = Inr []"
| "aic_drop fit selected (var # rest) =
     (case fit (filter (\<lambda>v. v \<noteq> var) selected) of
        Inl e \<Rightarrow> Inl e
      | Inr m \<Rightarrow>
          (case aic_drop fit selected rest of
             Inl e \<Rightarrow> Inl e
           | Inr cs \<Rightarrow> Inr ((aic m, var) # cs)))"

text \<open>
  The \<^verbatim>\<open>while True:\<close> loop of section 4.3. Nothing in its text bounds the number of
  rounds, so it is a partial function: \<open>None\<close> would be a loop that never ends, \<open>Some\<close> a
  loop that ended, with an exception (\<open>Inl\<close>) or with the final \<^verbatim>\<open>selected_bwd\<close> (\<open>Inr\<close>).
  \<^verbatim>\<open>min\<close> of the empty list \<^verbatim>\<open>aic_drop\<close> raises \<^verbatim>\<open>ValueError\<close>, and so does
  \<^verbatim>\<open>list.remove\<close> of an element the list does not hold.
\<close>

partial_function (option) bwd_loop ::
  "('v list \<Rightarrow> exn + fitres) \<Rightarrow> 'v list \<Rightarrow> (exn + 'v list) option" where
  "bwd_loop fit selected =
     (case fit selected of
        Inl e \<Rightarrow> Some (Inl e)
      | Inr m_full \<Rightarrow>
          (case aic_drop fit selected selected of
             Inl e \<Rightarrow> Some (Inl e)
           | Inr drops \<Rightarrow>
               (case min_by fst drops of
                  Inl e \<Rightarrow> Some (Inl e)
                | Inr (best_aic, drop_var) \<Rightarrow>
                    if best_aic < aic m_full - 1 / 100000000 then
                      (if drop_var \<in> set selected then bwd_loop fit (remove1 drop_var selected)
                       else Some (Inl ValueError))
                    else Some (Inr selected))))"

text \<open>\<^verbatim>\<open>selected_bwd = factors.copy()\<close>, then the loop.\<close>

definition selected_bwd :: "('v list \<Rightarrow> exn + fitres) \<Rightarrow> 'v list \<Rightarrow> (exn + 'v list) option" where
  "selected_bwd fit factors = bwd_loop fit factors"

text \<open>
  Section 4.4. The state of the loop is \<^verbatim>\<open>(selected_sw, remaining, current_aic)\<close>; a
  phase returns the new state and the new value of \<^verbatim>\<open>changed\<close>.

  The inclusion phase (\<^verbatim>\<open># tentativas de inclusao\<close>):
\<close>

type_synonym 'v sw_state = "'v list \<times> 'v list \<times> real option"

fun sw_add ::
  "('v list \<Rightarrow> exn + fitres) \<Rightarrow> ('v list \<Rightarrow> 'v list) \<Rightarrow> 'v sw_state \<times> bool \<Rightarrow>
   exn + 'v sw_state \<times> bool" where
  "sw_add fit order ((selected, remaining, current_aic), changed) =
     (case aic_candidates fit selected (list_of_set order remaining) of
        Inl e \<Rightarrow> Inl e
      | Inr add_aic \<Rightarrow>
          if add_aic = [] then Inr ((selected, remaining, current_aic), changed)
          else
            (case min_by fst add_aic of
               Inl e \<Rightarrow> Inl e
             | Inr (best_aic, best_var) \<Rightarrow>
                 if improves best_aic current_aic then
                   (if best_var \<in> set remaining then
                      Inr ((selected @ [best_var], remove1 best_var remaining, Some best_aic),
                           True)
                    else Inl KeyError)
                 else Inr ((selected, remaining, current_aic), changed)))"

text \<open>
  The removal phase (\<^verbatim>\<open># tentativas de remocao\<close>). Its inner loop keeps the candidate
  list beside the variable; for the empty candidate the script builds the intercept-only
  design by hand, which is the fit of the empty column list.
\<close>

fun rem_aic ::
  "('v list \<Rightarrow> exn + fitres) \<Rightarrow> 'v list \<Rightarrow> 'v list \<Rightarrow> exn + (real \<times> 'v \<times> 'v list) list" where
  "rem_aic fit selected [] = Inr []"
| "rem_aic fit selected (var # rest) =
     (case fit (filter (\<lambda>v. v \<noteq> var) selected) of
        Inl e \<Rightarrow> Inl e
      | Inr m \<Rightarrow>
          (case rem_aic fit selected rest of
             Inl e \<Rightarrow> Inl e
           | Inr cs \<Rightarrow> Inr ((aic m, var, filter (\<lambda>v. v \<noteq> var) selected) # cs)))"

fun sw_remove ::
  "('v list \<Rightarrow> exn + fitres) \<Rightarrow> 'v sw_state \<times> bool \<Rightarrow> exn + 'v sw_state \<times> bool" where
  "sw_remove fit ((selected, remaining, current_aic), changed) =
     (case rem_aic fit selected selected of
        Inl e \<Rightarrow> Inl e
      | Inr rems \<Rightarrow>
          if rems = [] then Inr ((selected, remaining, current_aic), changed)
          else
            (case min_by fst rems of
               Inl e \<Rightarrow> Inl e
             | Inr (best_aic_rem, var_rem, cand) \<Rightarrow>
                 (case fit selected of
                    Inl e \<Rightarrow> Inl e
                  | Inr m_full \<Rightarrow>
                      if best_aic_rem < aic m_full - 1 / 100000000 then
                        (if var_rem \<in> set selected then
                           Inr ((remove1 var_rem selected, set_add var_rem remaining,
                                 Some best_aic_rem), True)
                         else Inl ValueError)
                      else Inr ((selected, remaining, current_aic), changed))))"

text \<open>One pass of the \<^verbatim>\<open>while changed:\<close> body: \<^verbatim>\<open>changed = False\<close>, then the two phases.\<close>

definition sw_round ::
  "('v list \<Rightarrow> exn + fitres) \<Rightarrow> ('v list \<Rightarrow> 'v list) \<Rightarrow> 'v sw_state \<Rightarrow> exn + 'v sw_state \<times> bool" where
  "sw_round fit order st =
     (case sw_add fit order (st, False) of Inl e \<Rightarrow> Inl e | Inr r \<Rightarrow> sw_remove fit r)"

text \<open>
  The loop: \<^verbatim>\<open>changed\<close> starts as \<^verbatim>\<open>True\<close>, so the body runs once, and again as long as
  a pass changed something. As for the backward loop, \<open>None\<close> would be a loop without end.
\<close>

partial_function (option) sw_loop ::
  "('v list \<Rightarrow> exn + fitres) \<Rightarrow> ('v list \<Rightarrow> 'v list) \<Rightarrow> 'v sw_state \<Rightarrow>
   (exn + 'v sw_state) option" where
  "sw_loop fit order st =
     (case sw_round fit order st of
        Inl e \<Rightarrow> Some (Inl e)
      | Inr (st', changed) \<Rightarrow> if changed then sw_loop fit order st' else Some (Inr st'))"

text \<open>
  \<^verbatim>\<open>selected_sw = []; remaining = set(factors); current_aic = np.inf\<close>, then the loop.
\<close>

definition selected_sw ::
  "('v list \<Rightarrow> exn + fitres) \<Rightarrow> ('v list \<Rightarrow> 'v list) \<Rightarrow> 'v list \<Rightarrow> (exn + 'v sw_state) option" where
  "selected_sw fit order factors = sw_loop fit order ([], remdups factors, None)"

section \<open>Section 8 of the script: the Ljung-Box call\<close>

text \<open>
  \<^verbatim>\<open>ljung_box = acorr_ljungbox(model_final_ols.resid, lags=[1,5,10,20], return_df=True)\<close>.
  \<open>ljung_box_lags\<close> is the \<^verbatim>\<open>lags\<close> argument the script passes for a residual series; the
  library computes one statistic per lag it is given.
\<close>

definition ljung_box_lags :: "real list \<Rightarrow> nat list" where
  "ljung_box_lags resid = [1, 5, 10, 20]"

definition ljung_box :: "(real list \<Rightarrow> nat list \<Rightarrow> 'r) \<Rightarrow> real list \<Rightarrow> 'r" where
  "ljung_box acorr_ljungbox resid = acorr_ljungbox resid (ljung_box_lags resid)"

section \<open>The script from section 3 on: every fit of the response\<close>






section \<open>Notions used in the proofs\<close>

text \<open>
  \<open>greedy f U sel\<close>: the list \<open>sel\<close> was built by greedy additions from the universe \<open>U\<close>
  under the criteria \<open>f\<close>. Each element was, when added, an unused variable of least AIC
  among the extensions of the selection before it, and each addition after the first
  lowered the AIC by more than \<open>1e-8\<close>.
\<close>

definition greedy :: "('v list \<Rightarrow> fitres) \<Rightarrow> 'v set \<Rightarrow> 'v list \<Rightarrow> bool" where
  "greedy f U sel \<longleftrightarrow>
     (\<forall>i < length sel. \<forall>v \<in> U - set (take i sel).
        aic (f (take (Suc i) sel)) \<le> aic (f (take i sel @ [v]))) \<and>
     (\<forall>i. 0 < i \<and> i < length sel \<longrightarrow>
        aic (f (take (Suc i) sel)) < aic (f (take i sel)) - 1 / 100000000)"

text \<open>
  The AIC that a fit reports for a column list (\<open>0\<close> where the fit raises; the proofs
  only use it where the fit returned).
\<close>

definition aic_of :: "('v list \<Rightarrow> exn + fitres) \<Rightarrow> 'v list \<Rightarrow> real" where
  "aic_of fit cols = (case fit cols of Inl e \<Rightarrow> 0 | Inr m \<Rightarrow> aic m)"

text \<open>
  The invariant of the stepwise loop over the factor universe \<open>U\<close>: the selection and the
  set of unused variables have no repetition, share no variable and stay within \<open>U\<close>, and
  \<^verbatim>\<open>current_aic\<close> is the AIC of the current selection once a variable has been added.
\<close>

definition sw_inv :: "('v list \<Rightarrow> exn + fitres) \<Rightarrow> 'v set \<Rightarrow> 'v sw_state \<Rightarrow> bool" where
  "sw_inv fit U st \<longleftrightarrow>
     (case st of (selected, remaining, current_aic) \<Rightarrow>
        distinct selected \<and> distinct remaining \<and> set selected \<inter> set remaining = {} \<and>
        set selected \<union> set remaining \<subseteq> U \<and>
        (current_aic = None \<and> selected = [] \<or> current_aic = Some (aic_of fit selected)))"

text \<open>\<open>lowered new old\<close>: \<^verbatim>\<open>current_aic\<close> went from \<open>old\<close> to a strictly smaller number.\<close>

definition lowered :: "real option \<Rightarrow> real option \<Rightarrow> bool" where
  "lowered new old \<longleftrightarrow> (\<exists>c'. new = Some c' \<and> (\<forall>c. old = Some c \<longrightarrow> c' < c))"

text \<open>
  The variant of the stepwise loop: the number of duplicate-free lists over \<open>U\<close> whose
  AIC is below \<^verbatim>\<open>current_aic\<close> (one more than all of them while it is \<^verbatim>\<open>np.inf\<close>).
\<close>

definition sw_measure :: "('v list \<Rightarrow> exn + fitres) \<Rightarrow> 'v set \<Rightarrow> 'v sw_state \<Rightarrow> nat" where
  "sw_measure fit U st =
     (case st of (selected, remaining, current_aic) \<Rightarrow>
        (case current_aic of
           None \<Rightarrow> Suc (card {l. set l \<subseteq> U \<and> distinct l})
         | Some c \<Rightarrow> card {l. (set l \<subseteq> U \<and> distinct l) \<and> aic_of fit l < c}))"

section \<open>Concrete inputs\<close>





text \<open>
  Two factors and the criteria of their three candidate models. The values are those of
  a sample of about 90 observations (\<open>ln n = 4.5\<close>), where \<open>BIC - AIC = 2.5 (k + 1)\<close> for a
  model of \<open>k\<close> factors: adding \<^verbatim>\<open>HML\<close> to \<^verbatim>\<open>SMB\<close> lowers \<open>-2 log L\<close> by \<open>2.5\<close>, more than
  the AIC's penalty of \<open>2\<close> for one more parameter and less than the BIC's penalty of \<open>4.5\<close>.
\<close>

definition crit_two :: "string list \<Rightarrow> fitres" where
  "crit_two cols =
     (if cols = [''SMB''] then \<lparr>aic = 10, bic = 15, rsquared = 1 / 2\<rparr>
      else if cols = [''HML''] then \<lparr>aic = 12, bic = 17, rsquared = 2 / 5\<rparr>
      else if cols = [''SMB'', ''HML''] then \<lparr>aic = 19 / 2, bic = 17, rsquared = 11 / 20\<rparr>
      else \<lparr>aic = 40, bic = 85 / 2, rsquared = 0\<rparr>)"

definition fit_two :: "string list \<Rightarrow> exn + fitres" where
  "fit_two cols = Inr (crit_two cols)"

text \<open>
  Three factors, \<open>ln n = 5\<close> (about 150 observations), so \<open>BIC - AIC = 3 (k + 1)\<close>. The
  full model has the least AIC, the model of \<^verbatim>\<open>Rm-Rf\<close> alone the least BIC. The last
  line stands for every other column list.
\<close>

definition crit_three :: "string list \<Rightarrow> fitres" where
  "crit_three cols =
     (if cols = [''Rm-Rf''] then \<lparr>aic = 104, bic = 110, rsquared = 3 / 5\<rparr>
      else if cols = [''SMB''] then \<lparr>aic = 144, bic = 150, rsquared = 1 / 5\<rparr>
      else if cols = [''HML''] then \<lparr>aic = 154, bic = 160, rsquared = 1 / 10\<rparr>
      else if cols = [''Rm-Rf'', ''SMB''] then \<lparr>aic = 103, bic = 112, rsquared = 31 / 50\<rparr>
      else if cols = [''Rm-Rf'', ''HML''] then \<lparr>aic = 105, bic = 114, rsquared = 61 / 100\<rparr>
      else if cols = [''SMB'', ''HML''] then \<lparr>aic = 136, bic = 145, rsquared = 1 / 4\<rparr>
      else if cols = [''Rm-Rf'', ''SMB'', ''HML''] then
        \<lparr>aic = 205 / 2, bic = 229 / 2, rsquared = 16 / 25\<rparr>
      else \<lparr>aic = 160, bic = 163, rsquared = 0\<rparr>)"

definition fit_three :: "string list \<Rightarrow> exn + fitres" where
  "fit_three cols = Inr (crit_three cols)"






text \<open>
  Two factors that are pure noise for the response: each lowers \<open>-2 log L\<close> by less than
  the AIC's penalty of \<open>2\<close>, so every model with a factor has a higher AIC than the model
  without it. The last line is the intercept-only model.
\<close>

definition crit_noise :: "string list \<Rightarrow> fitres" where
  "crit_noise cols =
     (if cols = [''SMB''] then \<lparr>aic = 203 / 2, bic = 104, rsquared = 1 / 200\<rparr>
      else if cols = [''HML''] then \<lparr>aic = 509 / 5, bic = 1043 / 10, rsquared = 1 / 500\<rparr>
      else if cols = [''SMB'', ''HML''] then \<lparr>aic = 516 / 5, bic = 2139 / 20, rsquared = 3 / 500\<rparr>
      else \<lparr>aic = 100, bic = 405 / 4, rsquared = 0\<rparr>)"

definition fit_noise :: "string list \<Rightarrow> exn + fitres" where
  "fit_noise cols = Inr (crit_noise cols)"



section \<open>Properties of the factor list\<close>

text \<open>The script's factor list has no repetition and at most eight names.\<close>

lemma distinct_factors_of: "distinct (factors_of columns)"
  by (simp add: factors_of_def base_factors_def)

lemma length_factors_of: "length (factors_of columns) \<le> 8"
proof -
  have "length (factors_of columns) \<le> length base_factors"
    unfolding factors_of_def by (rule length_filter_le)
  then show ?thesis by (simp add: base_factors_def)
qed

lemma remdups_factors_of: "remdups (factors_of columns) = factors_of columns"
  by (simp add: distinct_factors_of)

section \<open>Properties of the Box-Cox decision\<close>

lemma series_min_Min: "ys \<noteq> [] \<Longrightarrow> series_min ys = Some (Min (set ys))"
  by (cases ys) (simp_all add: Min.set_eq_fold [symmetric])

lemma series_min_le: "series_min ys = Some m \<Longrightarrow> y \<in> set ys \<Longrightarrow> m \<le> y"
  by (cases "ys = []") (auto simp: series_min_Min)

lemma y_pos_positive:
  assumes "series_min y0 = Some min_y" and "y \<in> set (y_pos y0)"
  shows "0 < y"
proof -
  from assms(2) obtain x where x: "x \<in> set y0" and y: "y = x + shift y0"
    by (auto simp: y_pos_def)
  have le: "min_y \<le> x" using series_min_le [OF assms(1) x] .
  show ?thesis
  proof (cases "min_y \<le> 0")
    case True
    then have "shift y0 = 1 / 1000000 - min_y" by (simp add: shift_def assms(1))
    with le y show ?thesis by simp
  next
    case False
    then have "shift y0 = 0" by (simp add: shift_def assms(1))
    with le y False show ?thesis by simp
  qed
qed

text \<open>
  Claim C4, as stated: the shift is \<open>max 0 (\<epsilon> - min)\<close>, so a response whose minimum
  lies strictly between \<open>0\<close> and \<open>\<epsilon> = 1e-6\<close> is shifted by \<open>\<epsilon> - min > 0\<close>. The script
  tests \<^verbatim>\<open>min_y <= 0\<close>, not \<^verbatim>\<open>min_y < 1e-6\<close>: for the one-observation series
  \<open>[5e-7]\<close> the minimum is \<open>5e-7\<close>, the script's shift is \<open>0\<close>, and
  \<open>max 0 (\<epsilon> - min)\<close> is \<open>5e-7\<close>.
\<close>

theorem shift_between_zero_and_eps_counterexample:
  "series_min [1 / 2000000] = Some (1 / 2000000) \<and>
   shift [1 / 2000000] = 0 \<and>
   max 0 (1 / 1000000 - 1 / 2000000) = (1 / 2000000 :: real) \<and>
   shift [1 / 2000000] \<noteq> max 0 (1 / 1000000 - 1 / 2000000)"
  by (simp add: shift_def)

text \<open>
  Claim C4, amended: the response is shifted once, by \<open>\<epsilon> - min\<close> when \<open>min \<le> 0\<close> and by
  \<open>0\<close> when \<open>min > 0\<close> (a response that is already strictly positive is left alone).
  This is \<open>max 0 (\<epsilon> - min)\<close> except when \<open>0 < min < \<epsilon>\<close>, and in exact arithmetic every
  observation of the shifted response is strictly positive.
\<close>

theorem shift_as_coded:
  "series_min y0 = Some min_y \<Longrightarrow>
     shift y0 = (if min_y \<le> 0 then 1 / 1000000 - min_y else 0) \<and>
     (\<not> (0 < min_y \<and> min_y < 1 / 1000000) \<longrightarrow> shift y0 = max 0 (1 / 1000000 - min_y)) \<and>
     (\<forall>y \<in> set (y_pos y0). 0 < y)"
  using y_pos_positive [of y0 min_y] by (auto simp: shift_def)

theorem shift_as_coded_witness:
  "series_min [-2, 3] = Some (-2) \<and>
   shift [-2, 3] = 1 / 1000000 - (-2) \<and>
   shift [-2, 3] = max 0 (1 / 1000000 - (-2)) \<and>
   y_pos [-2, 3] = [1 / 1000000, 5000001 / 1000000]"
proof -
  have h: "series_min [-2, 3] = Some (-2)" by simp
  show ?thesis using h shift_as_coded [OF h] by (simp add: y_pos_def)
qed







section \<open>Properties of the search over all subsets\<close>


lemma set_combinations: "set (combinations xs k) = {ys. subseq ys xs \<and> length ys = k}"
proof (induction xs k rule: combinations.induct)
  case (1 xs)
  then show ?case by auto
next
  case (2 k)
  then show ?case by auto
next
  case (3 x xs k)
  show ?case
  proof (intro equalityI subsetI)
    fix ys assume "ys \<in> set (combinations (x # xs) (Suc k))"
    then show "ys \<in> {ys. subseq ys (x # xs) \<and> length ys = Suc k}"
      using 3 by auto
  next
    fix ys assume "ys \<in> {ys. subseq ys (x # xs) \<and> length ys = Suc k}"
    then have s: "subseq ys (x # xs)" and l: "length ys = Suc k" by auto
    from l obtain y ys' where ys: "ys = y # ys'" by (cases ys) auto
    show "ys \<in> set (combinations (x # xs) (Suc k))"
    proof (cases "y = x")
      case True
      then have "subseq ys' xs" using s ys by simp
      then show ?thesis using 3 l ys True by auto
    next
      case False
      then have "subseq ys xs" using s ys by (simp add: subseq_Cons2_neq)
      then show ?thesis using 3 l by auto
    qed
  qed
qed

lemma distinct_combinations: "distinct xs \<Longrightarrow> distinct (combinations xs k)"
proof (induction xs k rule: combinations.induct)
  case (3 x xs k)
  have "x \<notin> set ys" if "ys \<in> set (combinations xs (Suc k))" for ys
    using that 3(3) by (auto simp: set_combinations dest: list_emb_set)
  then have "set (map ((#) x) (combinations xs k)) \<inter> set (combinations xs (Suc k)) = {}"
    by fastforce
  then show ?case using 3 by (simp add: distinct_map)
qed simp_all


lemma set_subsets: "snd ` set (subsets factors) = {s. subseq s factors \<and> s \<noteq> []}"
proof -
  have "snd ` set (subsets factors) =
          (\<Union>k\<in>{1..<length factors + 1}. set (combinations factors k))"
    by (force simp: subsets_def simp del: upt_Suc)
  also have "\<dots> = {s. subseq s factors \<and> s \<noteq> []}"
  proof (intro equalityI subsetI)
    fix s assume "s \<in> (\<Union>k\<in>{1..<length factors + 1}. set (combinations factors k))"
    then show "s \<in> {s. subseq s factors \<and> s \<noteq> []}"
      by (auto simp: set_combinations)
  next
    fix s assume "s \<in> {s. subseq s factors \<and> s \<noteq> []}"
    then have "subseq s factors" and "s \<noteq> []" by auto
    then have "s \<in> set (combinations factors (length s))" and "1 \<le> length s"
      and "length s < length factors + 1"
      using list_emb_length [of "(=)" s factors]
      by (auto simp: set_combinations Suc_le_eq)
    then show "s \<in> (\<Union>k\<in>{1..<length factors + 1}. set (combinations factors k))"
      by (meson UN_I atLeastLessThan_iff)
  qed
  finally show ?thesis .
qed


lemma fit_all_Inl: "p \<in> set ps \<Longrightarrow> fit (snd p) = Inl e \<Longrightarrow> \<exists>e'. fit_all fit ps = Inl e'"
  by (induction ps) (auto split: sum.splits)

lemma fit_all_vars: "fit_all fit ps = Inr rows \<Longrightarrow> map vars rows = map snd ps"
  by (induction ps arbitrary: rows) (auto simp: row_of_def split: sum.splits)

text \<open>Reading a frame by label does not depend on the order of its rows.\<close>

lemma loc_mset_cong:
  assumes "distinct (map fst df)" and "mset df' = mset df"
  shows "loc df' l = loc df l"
proof -
  have "mset (map fst df') = mset (map fst df)" using assms(2) by (metis mset_map)
  then have d: "distinct (map fst df')" using assms(1) by (metis mset_eq_imp_distinct_iff)
  have "set df' = set df" using assms(2) by (metis mset_eq_setD)
  then have "map_of df' = map_of df"
    using map_of_inject_set [OF d assms(1)] by simp
  then show ?thesis by (simp add: loc_def)
qed

lemma loc_sort_values:
  "distinct (map fst df) \<Longrightarrow> sort_values key df = Inr df' \<Longrightarrow> loc df' l = loc df l"
  by (rule loc_mset_cong) (auto simp: sort_values_def split: if_splits)

lemma labels_reset_index: "map fst (reset_index df) = [0..<length df]"
  by (simp add: reset_index_def)

text \<open>
  \<^verbatim>\<open>res_df.sort_values("BIC")\<close> keeps the labels that \<^verbatim>\<open>reset_index\<close> gave after the sort
  by \<^verbatim>\<open>(AIC, BIC)\<close>, and \<^verbatim>\<open>.loc[0]\<close> reads by label: \<^verbatim>\<open>best_bic_vars\<close> is always
  \<^verbatim>\<open>best_aic_vars\<close>.
\<close>

lemma best_bic_vars_eq_best_aic_vars: "best_bic_vars fit factors = best_aic_vars fit factors"
proof (cases "res_df fit factors")
  case (Inl e)
  then show ?thesis by (simp add: best_bic_vars_def best_aic_vars_def)
next
  case (Inr df)
  then obtain rows
    where df: "df = reset_index (sort_key (\<lambda>lr. (AIC (snd lr), BIC (snd lr))) (DataFrame rows))"
      and ne: "DataFrame rows \<noteq> []"
    by (auto simp: res_df_def sort_values_def split: sum.splits if_splits)
  have d: "distinct (map fst df)" by (simp add: df labels_reset_index)
  have "length df = length (DataFrame rows)" by (simp add: df reset_index_def)
  then have "df \<noteq> []" using ne by auto
  then obtain by_bic where s: "sort_values BIC df = Inr by_bic"
    by (auto simp: sort_values_def)
  have "loc by_bic 0 = loc df 0" using loc_sort_values [OF d s] .
  then show ?thesis by (simp add: best_bic_vars_def best_aic_vars_def Inr s)
qed

lemma loc_zip_0: "xs \<noteq> [] \<Longrightarrow> loc (zip [0..<length xs] xs) 0 = Inr (hd xs)"
  by (cases xs) (simp_all add: loc_def upt_rec)

lemma sorted_hd_le: "sorted (map f xs) \<Longrightarrow> x \<in> set xs \<Longrightarrow> f (hd xs) \<le> f x"
  by (cases xs) auto

text \<open>
  The row labelled \<open>0\<close> of \<^verbatim>\<open>res_df\<close> is a row of the table that is least in \<^verbatim>\<open>(AIC, BIC)\<close>,
  lexicographically: \<^verbatim>\<open>best_aic_vars\<close> is a subset of least AIC.
\<close>

lemma res_df_first_minimal:
  assumes "res_df fit factors = Inr df"
  shows "\<exists>r rows. results_subset fit factors = Inr rows \<and> loc df 0 = Inr r \<and> r \<in> set rows \<and>
           (\<forall>r' \<in> set rows. (AIC r, BIC r) \<le> (AIC r', BIC r'))"
proof -
  from assms obtain rows where rows: "results_subset fit factors = Inr rows"
    and ne: "DataFrame rows \<noteq> []"
    and df: "df = reset_index (sort_key (\<lambda>lr. (AIC (snd lr), BIC (snd lr))) (DataFrame rows))"
    by (auto simp: res_df_def sort_values_def split: sum.splits if_splits)
  let ?key = "\<lambda>lr::nat \<times> 'a row. (AIC (snd lr), BIC (snd lr))"
  let ?s = "sort_key ?key (DataFrame rows)"
  let ?xs = "map snd ?s"
  have "length ?xs = length (DataFrame rows)" by simp
  then have xs_ne: "?xs \<noteq> []" using ne by (metis length_0_conv)
  have "map snd (DataFrame rows) = rows" by (simp add: DataFrame_def)
  then have "set rows = snd ` set (DataFrame rows)" by (metis set_map)
  then have set_xs: "set ?xs = set rows" by simp
  have "sorted (map ?key ?s)" by (rule sorted_sort_key)
  then have srt: "sorted (map (\<lambda>r. (AIC r, BIC r)) ?xs)" by (simp add: comp_def)
  have "loc df 0 = Inr (hd ?xs)"
    unfolding df reset_index_def using loc_zip_0 [OF xs_ne] by simp
  moreover have "hd ?xs \<in> set rows" using xs_ne set_xs by (metis hd_in_set)
  moreover have "\<forall>r' \<in> set rows. (AIC (hd ?xs), BIC (hd ?xs)) \<le> (AIC r', BIC r')"
    using sorted_hd_le [OF srt] set_xs by blast
  ultimately show ?thesis using rows by blast
qed

lemma subsets_two:
  "subsets [''SMB'', ''HML''] = [(1, [''SMB'']), (1, [''HML'']), (2, [''SMB'', ''HML''])]"
  by code_simp

lemma subsets_three:
  "subsets [''Rm-Rf'', ''SMB'', ''HML''] =
     [(1, [''Rm-Rf'']), (1, [''SMB'']), (1, [''HML'']),
      (2, [''Rm-Rf'', ''SMB'']), (2, [''Rm-Rf'', ''HML'']), (2, [''SMB'', ''HML'']),
      (3, [''Rm-Rf'', ''SMB'', ''HML''])]"
  by code_simp

text \<open>
  Claim C1 says that the final variable set has the least BIC of all non-empty subsets,
  and that an empty factor universe falls back to the full factor set. The script does
  neither. On the two factors of \<open>fit_two\<close> the table holds \<^verbatim>\<open>(SMB)\<close> with BIC \<open>15\<close> and
  \<^verbatim>\<open>(SMB, HML)\<close> with BIC \<open>17\<close>, and \<^verbatim>\<open>final_vars\<close> is \<^verbatim>\<open>(SMB, HML)\<close>, the subset of least
  AIC: \<^verbatim>\<open>.loc[0]\<close> reads the row labelled \<open>0\<close>, which the BIC sort moved but did not
  relabel. On an empty factor list the table is empty, sorting it raises \<^verbatim>\<open>KeyError\<close>,
  and the line with the fallback is never reached.
\<close>

theorem final_vars_is_not_the_least_bic:
  "results_subset fit_two [''SMB'', ''HML''] =
     Inr [\<lparr>vars = [''SMB''], k_size = 1, AIC = 10, BIC = 15, R2 = 1 / 2\<rparr>,
          \<lparr>vars = [''HML''], k_size = 1, AIC = 12, BIC = 17, R2 = 2 / 5\<rparr>,
          \<lparr>vars = [''SMB'', ''HML''], k_size = 2, AIC = 19 / 2, BIC = 17, R2 = 11 / 20\<rparr>] \<and>
   final_vars fit_two [''SMB'', ''HML''] = Inr [''SMB'', ''HML''] \<and>
   final_vars fit [] = Inl KeyError"
proof -
  have r: "results_subset fit_two [''SMB'', ''HML''] =
     Inr [\<lparr>vars = [''SMB''], k_size = 1, AIC = 10, BIC = 15, R2 = 1 / 2\<rparr>,
          \<lparr>vars = [''HML''], k_size = 1, AIC = 12, BIC = 17, R2 = 2 / 5\<rparr>,
          \<lparr>vars = [''SMB'', ''HML''], k_size = 2, AIC = 19 / 2, BIC = 17, R2 = 11 / 20\<rparr>]"
    by (simp add: results_subset_def subsets_two fit_two_def crit_two_def row_of_def)
  have d: "res_df fit_two [''SMB'', ''HML''] =
     Inr [(0, \<lparr>vars = [''SMB'', ''HML''], k_size = 2, AIC = 19 / 2, BIC = 17, R2 = 11 / 20\<rparr>),
          (1, \<lparr>vars = [''SMB''], k_size = 1, AIC = 10, BIC = 15, R2 = 1 / 2\<rparr>),
          (2, \<lparr>vars = [''HML''], k_size = 1, AIC = 12, BIC = 17, R2 = 2 / 5\<rparr>)]"
    by (simp add: res_df_def r sort_values_def DataFrame_def reset_index_def upt_rec)
  have f: "final_vars fit_two [''SMB'', ''HML''] = Inr [''SMB'', ''HML'']"
    by (simp add: final_vars_def best_aic_vars_def best_bic_vars_def d sort_values_def loc_def)
  have e: "final_vars fit [] = Inl KeyError"
    by (simp add: final_vars_def best_aic_vars_def res_df_def results_subset_def subsets_def
        sort_values_def DataFrame_def)
  from r f e show ?thesis by simp
qed

text \<open>
  Claim C2 says that the reported best-by-BIC subset attains the least BIC of the
  enumeration. The enumeration, the table and the best-by-AIC subset are as the claim
  says (\<open>length_subsets\<close>, \<open>set_subsets\<close>, \<open>fit_all_Inr\<close>, \<open>res_df_first_minimal\<close>), but
  \<^verbatim>\<open>best_bic_vars\<close> is always \<^verbatim>\<open>best_aic_vars\<close> (\<open>best_bic_vars_eq_best_aic_vars\<close>). On the
  three factors of \<open>fit_three\<close> the sort by BIC puts the rows in the order of the labels
  \<open>2, 1, 3, 0, 4, 5, 6\<close>, so the subset of least BIC is \<^verbatim>\<open>(Rm-Rf)\<close>, at label \<open>2\<close>, with BIC
  \<open>110\<close>; the script reports the row of label \<open>0\<close>, the full model, with BIC \<open>114.5\<close>.
\<close>

theorem best_bic_vars_is_the_least_aic:
  "\<exists>df by_bic.
     res_df fit_three [''Rm-Rf'', ''SMB'', ''HML''] = Inr df \<and>
     df =
       [(0, \<lparr>vars = [''Rm-Rf'', ''SMB'', ''HML''], k_size = 3, AIC = 205 / 2, BIC = 229 / 2,
              R2 = 16 / 25\<rparr>),
        (1, \<lparr>vars = [''Rm-Rf'', ''SMB''], k_size = 2, AIC = 103, BIC = 112, R2 = 31 / 50\<rparr>),
        (2, \<lparr>vars = [''Rm-Rf''], k_size = 1, AIC = 104, BIC = 110, R2 = 3 / 5\<rparr>),
        (3, \<lparr>vars = [''Rm-Rf'', ''HML''], k_size = 2, AIC = 105, BIC = 114, R2 = 61 / 100\<rparr>),
        (4, \<lparr>vars = [''SMB'', ''HML''], k_size = 2, AIC = 136, BIC = 145, R2 = 1 / 4\<rparr>),
        (5, \<lparr>vars = [''SMB''], k_size = 1, AIC = 144, BIC = 150, R2 = 1 / 5\<rparr>),
        (6, \<lparr>vars = [''HML''], k_size = 1, AIC = 154, BIC = 160, R2 = 1 / 10\<rparr>)] \<and>
     sort_values BIC df = Inr by_bic \<and>
     map fst by_bic = [2, 1, 3, 0, 4, 5, 6] \<and>
     best_aic_vars fit_three [''Rm-Rf'', ''SMB'', ''HML''] = Inr [''Rm-Rf'', ''SMB'', ''HML''] \<and>
     best_bic_vars fit_three [''Rm-Rf'', ''SMB'', ''HML''] = Inr [''Rm-Rf'', ''SMB'', ''HML'']"
proof -
  let ?df =
    "[(0, \<lparr>vars = [''Rm-Rf'', ''SMB'', ''HML''], k_size = 3, AIC = 205 / 2, BIC = 229 / 2,
              R2 = 16 / 25\<rparr>),
        (1, \<lparr>vars = [''Rm-Rf'', ''SMB''], k_size = 2, AIC = 103, BIC = 112, R2 = 31 / 50\<rparr>),
        (2, \<lparr>vars = [''Rm-Rf''], k_size = 1, AIC = 104, BIC = 110, R2 = 3 / 5\<rparr>),
        (3, \<lparr>vars = [''Rm-Rf'', ''HML''], k_size = 2, AIC = 105, BIC = 114, R2 = 61 / 100\<rparr>),
        (4, \<lparr>vars = [''SMB'', ''HML''], k_size = 2, AIC = 136, BIC = 145, R2 = 1 / 4\<rparr>),
        (5, \<lparr>vars = [''SMB''], k_size = 1, AIC = 144, BIC = 150, R2 = 1 / 5\<rparr>),
        (6, \<lparr>vars = [''HML''], k_size = 1, AIC = 154, BIC = 160, R2 = 1 / 10\<rparr>)]"
  have d: "res_df fit_three [''Rm-Rf'', ''SMB'', ''HML''] = Inr ?df"
    by (simp add: res_df_def results_subset_def subsets_three fit_three_def crit_three_def row_of_def
        sort_values_def DataFrame_def reset_index_def upt_rec)
  obtain by_bic where s: "sort_values BIC ?df = Inr by_bic" and l: "map fst by_bic = [2, 1, 3, 0, 4, 5, 6]"
    by (simp add: sort_values_def)
  have a: "best_aic_vars fit_three [''Rm-Rf'', ''SMB'', ''HML''] = Inr [''Rm-Rf'', ''SMB'', ''HML'']"
    by (simp add: best_aic_vars_def d loc_def)
  have b: "best_bic_vars fit_three [''Rm-Rf'', ''SMB'', ''HML''] = Inr [''Rm-Rf'', ''SMB'', ''HML'']"
    by (simp add: best_bic_vars_def d sort_values_def loc_def)
  show ?thesis
    by (rule exI [of _ ?df], rule exI [of _ by_bic]) (intro conjI d refl s l a b)
qed

section \<open>The fits of the candidates\<close>

lemma set_list_of_set [simp]: "set (list_of_set order s) = set s"
  by (simp add: list_of_set_def)

lemma aic_candidates_Inl:
  "v \<in> set vs \<Longrightarrow> fit (selected @ [v]) = Inl e \<Longrightarrow> \<exists>e'. aic_candidates fit selected vs = Inl e'"
  by (induction vs) (auto split: sum.splits)

lemma aic_candidates_Inr:
  "\<forall>v \<in> set vs. fit (selected @ [v]) = Inr (f (selected @ [v])) \<Longrightarrow>
   aic_candidates fit selected vs = Inr (map (\<lambda>v. (aic (f (selected @ [v])), v)) vs)"
  by (induction vs) auto

section \<open>The Ljung-Box horizons\<close>

text \<open>
  Claim C7, as stated: horizons that the series is too short for are dropped, so every
  reported horizon is at most the largest lag the series supports (one less than its
  length). The script passes the same four horizons whatever the series: for a residual
  series of three observations the horizon \<open>20\<close> is requested, and the largest lag three
  observations support is \<open>2\<close>.
\<close>

theorem ljung_box_lags_not_truncated_counterexample:
  "ljung_box_lags [1, - 1, 1] = [1, 5, 10, 20] \<and>
   20 \<in> set (ljung_box_lags [1, - 1, 1]) \<and>
   \<not> (20 :: nat) \<le> length [1, - 1, 1 :: real] - 1"
  by (simp add: ljung_box_lags_def)

text \<open>
  Claim C7, amended: the Ljung-Box test on the residuals of the final model is requested
  at exactly the horizons \<open>1, 5, 10, 20\<close> for every residual series; no horizon is dropped.
  Every requested horizon is a lag the series supports exactly when the series has at
  least \<open>21\<close> observations.
\<close>

theorem ljung_box_lags_fixed:
  "ljung_box acorr_ljungbox resid = acorr_ljungbox resid [1, 5, 10, 20] \<and>
   ((\<forall>h \<in> set (ljung_box_lags resid). h \<le> length resid - 1) \<longleftrightarrow> 21 \<le> length resid)"
  by (auto simp: ljung_box_def ljung_box_lags_def)

theorem ljung_box_lags_fixed_witness:
  "ljung_box (\<lambda>resid lags. lags) (replicate 21 0) = [1, 5, 10, 20] \<and>
   list_all (\<lambda>h. h \<le> length (replicate 21 (0 :: real)) - 1) (ljung_box_lags (replicate 21 0)) \<and>
   \<not> list_all (\<lambda>h. h \<le> length [1, - 1, 1 :: real] - 1) (ljung_box_lags [1, - 1, 1])"
  using ljung_box_lags_fixed [of "\<lambda>resid lags. lags" "replicate 21 0"]
    ljung_box_lags_fixed [of "\<lambda>resid lags. lags" "[1, - 1, 1]"]
  by (simp add: list_all_iff)

section \<open>Properties of the forward search\<close>

lemma fold_min_by:
  fixes key :: "'a \<Rightarrow> real"
  defines "g \<equiv> \<lambda>c best. if key c < key best then c else best"
  shows "fold g xs x \<in> set (x # xs) \<and> (\<forall>y \<in> set (x # xs). key (fold g xs x) \<le> key y)"
proof (induction xs arbitrary: x)
  case Nil
  then show ?case by simp
next
  case (Cons a xs)
  have "fold g (a # xs) x = fold g xs (g a x)" by simp
  moreover have "g a x \<in> {a, x}" and "key (g a x) \<le> key a" and "key (g a x) \<le> key x"
    by (auto simp: g_def)
  ultimately show ?case using Cons [of "g a x"] by (auto intro: order_trans)
qed

lemma min_by_Inr:
  assumes "min_by key xs = Inr m"
  shows "m \<in> set xs \<and> (\<forall>y \<in> set xs. key m \<le> key y)"
proof (cases xs)
  case Nil
  with assms show ?thesis by simp
next
  case (Cons x xs')
  with assms have "m = fold (\<lambda>c best. if key c < key best then c else best) xs' x" by simp
  then show ?thesis using fold_min_by [of key xs' x] Cons by simp
qed

lemma min_by_nonempty: "xs \<noteq> [] \<Longrightarrow> \<exists>m. min_by key xs = Inr m"
  by (cases xs) simp_all

lemma greedy_Nil: "greedy f U []"
  by (simp add: greedy_def)

lemma greedy_snoc:
  assumes "greedy f U sel"
    and "\<forall>u \<in> U - set sel. aic (f (sel @ [v])) \<le> aic (f (sel @ [u]))"
    and "sel \<noteq> [] \<longrightarrow> aic (f (sel @ [v])) < aic (f sel) - 1 / 100000000"
  shows "greedy f U (sel @ [v])"
  unfolding greedy_def
proof (intro conjI allI impI ballI)
  fix i u assume i: "i < length (sel @ [v])" and u: "u \<in> U - set (take i (sel @ [v]))"
  show "aic (f (take (Suc i) (sel @ [v]))) \<le> aic (f (take i (sel @ [v]) @ [u]))"
  proof (cases "i < length sel")
    case True
    then show ?thesis using assms(1) u by (simp add: greedy_def)
  next
    case False
    then have "i = length sel" using i by simp
    then show ?thesis using assms(2) u by simp
  qed
next
  fix i assume i: "0 < i \<and> i < length (sel @ [v])"
  show "aic (f (take (Suc i) (sel @ [v]))) < aic (f (take i (sel @ [v]))) - 1 / 100000000"
  proof (cases "i < length sel")
    case True
    then show ?thesis using assms(1) i by (simp add: greedy_def)
  next
    case False
    then have "i = length sel" using i by simp
    then show ?thesis using assms(3) i by auto
  qed
qed


lemma list_of_set_Nil [simp]: "list_of_set order s = [] \<longleftrightarrow> s = []"
  using set_list_of_set [of order s] by (metis set_empty)

lemma fwd_loop_correct:
  assumes "length rem = n" and "distinct rem" and "distinct sel" and "set rem \<inter> set sel = {}"
    and "set rem \<union> set sel = U"
    and "sel \<noteq> [] \<longrightarrow> cur = Some (aic (f sel))" and "sel = [] \<longrightarrow> cur = None"
    and "greedy f U sel"
  shows "\<exists>sel' cur'. fwd_loop (\<lambda>s. Inr (f s)) order rem sel cur = Inr (sel', cur') \<and>
           distinct sel' \<and> set sel' \<subseteq> U \<and>
           (sel' \<noteq> [] \<longrightarrow> cur' = Some (aic (f sel'))) \<and> (sel' = [] \<longrightarrow> U = {} \<and> cur' = None) \<and>
           greedy f U sel' \<and>
           (\<forall>v \<in> U - set sel'. \<not> aic (f (sel' @ [v])) < aic (f sel') - 1 / 100000000)"
  using assms
proof (induction n arbitrary: rem sel cur)
  case 0
  then have "rem = []" by simp
  then have "fwd_loop (\<lambda>s. Inr (f s)) order rem sel cur = Inr (sel, cur)"
    by (subst fwd_loop.simps) simp
  moreover have "U = set sel" using 0(5) \<open>rem = []\<close> by simp
  ultimately show ?case
    using 0(3,6,7,8) by (intro exI [of _ sel] exI [of _ cur]) auto
next
  case (Suc n)
  let ?F = "\<lambda>s. Inr (f s) :: exn + fitres"
  let ?l = "list_of_set order rem"
  let ?cands = "map (\<lambda>v. (aic (f (sel @ [v])), v)) ?l"
  have ne: "rem \<noteq> []" using Suc.prems(1) by auto
  have c: "aic_candidates ?F sel ?l = Inr ?cands"
    using aic_candidates_Inr [where fit = ?F and f = f and selected = sel and vs = ?l] by simp
  have "?cands \<noteq> []" using ne by simp
  then obtain m where m: "min_by fst ?cands = Inr m"
    using min_by_nonempty [of ?cands fst] by blast
  obtain a v where av: "m = (a, v)" by (cases m)
  from min_by_Inr [OF m] av have mem: "(a, v) \<in> set ?cands"
    and le: "\<forall>y \<in> set ?cands. a \<le> fst y"
    by simp_all
  from mem have v: "v \<in> set rem" and a: "a = aic (f (sel @ [v]))" by auto
  have least: "\<forall>u \<in> set rem. a \<le> aic (f (sel @ [u]))"
  proof
    fix u assume "u \<in> set rem"
    then have "(aic (f (sel @ [u])), u) \<in> set ?cands" by simp
    with le show "a \<le> aic (f (sel @ [u]))" by fastforce
  qed
  have U: "U - set sel = set rem" using Suc.prems(4,5) by auto
  show ?case
  proof (cases "improves a cur")
    case True
    have eq: "fwd_loop ?F order rem sel cur =
                fwd_loop ?F order (remove1 v rem) (sel @ [v]) (Some a)"
      using ne c m av True v by (subst fwd_loop.simps) simp
    have 1: "length (remove1 v rem) = n" using Suc.prems(1) v by (simp add: length_remove1)
    have 2: "distinct (remove1 v rem)" using Suc.prems(2) by simp
    have 3: "distinct (sel @ [v])" using Suc.prems(3,4) v by auto
    have 4: "set (remove1 v rem) \<inter> set (sel @ [v]) = {}"
      using Suc.prems(2,4) by auto
    have 5: "set (remove1 v rem) \<union> set (sel @ [v]) = U"
      using Suc.prems(2,5) v by auto
    have 6: "sel @ [v] \<noteq> [] \<longrightarrow> Some a = Some (aic (f (sel @ [v])))" using a by simp
    have 7: "sel @ [v] = [] \<longrightarrow> Some a = None" by simp
    have "sel \<noteq> [] \<longrightarrow> a < aic (f sel) - 1 / 100000000"
      using True Suc.prems(6) by (auto simp: improves_def)
    then have 8: "greedy f U (sel @ [v])"
      using greedy_snoc [OF Suc.prems(8), of v] least a U by simp
    from Suc.IH [OF 1 2 3 4 5 6 7 8] show ?thesis unfolding eq .
  next
    case False
    have eq: "fwd_loop ?F order rem sel cur = Inr (sel, cur)"
      using ne c m av False by (subst fwd_loop.simps) simp
    from False have sel_ne: "sel \<noteq> []" using Suc.prems(7) by (auto simp: improves_def)
    then have cur: "cur = Some (aic (f sel))" using Suc.prems(6) by simp
    with False have "\<not> a < aic (f sel) - 1 / 100000000" by (simp add: improves_def)
    then have "\<forall>u \<in> U - set sel. \<not> aic (f (sel @ [u])) < aic (f sel) - 1 / 100000000"
      unfolding U using least by (meson less_le_trans not_less order_refl le_less_trans)
    then show ?thesis
      using eq sel_ne cur Suc.prems(3,5,8)
      by (intro exI [of _ sel] exI [of _ cur]) auto
  qed
qed


text \<open>
  Claim C3: when every fit returns, the forward search returns the list \<open>sel\<close> of the
  variables it added, in the order it added them, and the last AIC \<open>cur\<close>. It starts from
  the empty list (the definition of \<open>selected_fwd\<close>); the variable added in round \<open>i\<close> gives
  the least AIC among all variables unused at that round (fifth line); every addition
  after the first lowered the AIC by strictly more than \<open>1e-8\<close>, the first being compared
  with \<^verbatim>\<open>np.inf\<close> (sixth line); and at the end no unused variable lowers the AIC of the
  selected model by more than \<open>1e-8\<close> (last line).
\<close>

theorem forward_selection_greedy:
  "\<exists>sel cur.
     selected_fwd (\<lambda>s. Inr (f s)) order factors = Inr (sel, cur) \<and>
     distinct sel \<and> set sel \<subseteq> set factors \<and>
     (sel = [] \<longrightarrow> factors = []) \<and>
     (sel \<noteq> [] \<longrightarrow> cur = Some (aic (f sel))) \<and>
     (\<forall>i < length sel. \<forall>v \<in> set factors - set (take i sel).
        aic (f (take (Suc i) sel)) \<le> aic (f (take i sel @ [v]))) \<and>
     (\<forall>i. 0 < i \<and> i < length sel \<longrightarrow>
        aic (f (take (Suc i) sel)) < aic (f (take i sel)) - 1 / 100000000) \<and>
     (\<forall>v \<in> set factors - set sel. \<not> aic (f (sel @ [v])) < aic (f sel) - 1 / 100000000)"
proof -
  have "\<exists>sel' cur'. fwd_loop (\<lambda>s. Inr (f s)) order (remdups factors) [] None = Inr (sel', cur') \<and>
           distinct sel' \<and> set sel' \<subseteq> set factors \<and>
           (sel' \<noteq> [] \<longrightarrow> cur' = Some (aic (f sel'))) \<and>
           (sel' = [] \<longrightarrow> set factors = {} \<and> cur' = None) \<and>
           greedy f (set factors) sel' \<and>
           (\<forall>v \<in> set factors - set sel'. \<not> aic (f (sel' @ [v])) < aic (f sel') - 1 / 100000000)"
    by (rule fwd_loop_correct [where n = "length (remdups factors)"])
       (simp_all add: greedy_Nil)
  then obtain sel cur where r: "fwd_loop (\<lambda>s. Inr (f s)) order (remdups factors) [] None = Inr (sel, cur)"
    and p: "distinct sel" "set sel \<subseteq> set factors" "sel \<noteq> [] \<longrightarrow> cur = Some (aic (f sel))"
      "sel = [] \<longrightarrow> set factors = {} \<and> cur = None" "greedy f (set factors) sel"
      "\<forall>v \<in> set factors - set sel. \<not> aic (f (sel @ [v])) < aic (f sel) - 1 / 100000000"
    by blast
  show ?thesis
    apply (rule exI [of _ sel], rule exI [of _ cur])
    using r p unfolding greedy_def selected_fwd_def by simp
qed

theorem forward_selection_greedy_witness:
  "selected_fwd (\<lambda>s. Inr (crit_three s)) (\<lambda>s. s) [''HML'', ''CMA''] = Inr ([''HML''], Some 154) \<and>
   aic (crit_three [''HML'']) \<le> aic (crit_three [''CMA'']) \<and>
   \<not> aic (crit_three ([''HML''] @ [''CMA''])) < aic (crit_three [''HML'']) - 1 / 100000000"
proof -
  have e: "selected_fwd (\<lambda>s. Inr (crit_three s)) (\<lambda>s. s) [''HML'', ''CMA''] = Inr ([''HML''], Some 154)"
    by (simp add: selected_fwd_def fwd_loop.simps list_of_set_def crit_three_def improves_def)
  from forward_selection_greedy [of crit_three "\<lambda>s. s" "[''HML'', ''CMA'']"] e
  show ?thesis by force
qed


section \<open>Termination of the backward and stepwise searches\<close>

lemma aic_drop_total:
  "aic_drop (\<lambda>s. Inr (f s)) selected vs =
     Inr (map (\<lambda>v. (aic (f (filter (\<lambda>u. u \<noteq> v) selected)), v)) vs)"
  by (induction vs) auto

lemma bwd_loop_terminates: "\<exists>r. bwd_loop fit selected = Some r"
proof (induction "length selected" arbitrary: selected rule: less_induct)
  case less
  show ?case
  proof (cases "fit selected")
    case (Inl e)
    then show ?thesis by (subst bwd_loop.simps) simp
  next
    case m: (Inr m_full)
    show ?thesis
    proof (cases "aic_drop fit selected selected")
      case (Inl e)
      then show ?thesis using m by (subst bwd_loop.simps) simp
    next
      case d: (Inr drops)
      show ?thesis
      proof (cases "min_by fst drops")
        case (Inl e)
        then show ?thesis using m d by (subst bwd_loop.simps) simp
      next
        case (Inr b)
        obtain best_aic drop_var where b: "b = (best_aic, drop_var)" by (cases b)
        show ?thesis
        proof (cases "best_aic < aic m_full - 1 / 100000000 \<and> drop_var \<in> set selected")
          case True
          then have "0 < length selected" by (auto simp: length_pos_if_in_set)
          with True have "length (remove1 drop_var selected) < length selected"
            by (simp add: length_remove1)
          from less [OF this] obtain r where "bwd_loop fit (remove1 drop_var selected) = Some r" ..
          then show ?thesis using m d Inr b True by (subst bwd_loop.simps) simp
        next
          case False
          then show ?thesis using m d Inr b by (subst bwd_loop.simps) auto
        qed
      qed
    qed
  qed
qed


lemma bwd_loop_total:
  "\<exists>r. bwd_loop (\<lambda>s. Inr (f s)) selected = Some r \<and>
       (case r of
          Inl e \<Rightarrow> e = ValueError
        | Inr sel \<Rightarrow>
            sel \<noteq> [] \<and> set sel \<subseteq> set selected \<and>
            (\<forall>v \<in> set sel.
               \<not> aic (f (filter (\<lambda>u. u \<noteq> v) sel)) < aic (f sel) - 1 / 100000000))"
proof (induction "length selected" arbitrary: selected rule: less_induct)
  case less
  let ?F = "\<lambda>s. Inr (f s) :: exn + fitres"
  let ?drops = "map (\<lambda>v. (aic (f (filter (\<lambda>u. u \<noteq> v) selected)), v)) selected"
  have d: "aic_drop ?F selected selected = Inr ?drops" by (rule aic_drop_total)
  show ?case
  proof (cases "selected = []")
    case True
    then have "bwd_loop ?F selected = Some (Inl ValueError)"
      by (subst bwd_loop.simps) simp
    then show ?thesis by simp
  next
    case False
    then have "?drops \<noteq> []" by simp
    then obtain b where b: "min_by fst ?drops = Inr b"
      using min_by_nonempty [of ?drops fst] by blast
    obtain a v where av: "b = (a, v)" by (cases b)
    from min_by_Inr [OF b] av have mem: "(a, v) \<in> set ?drops"
      and le: "\<forall>y \<in> set ?drops. a \<le> fst y"
      by simp_all
    from mem have v: "v \<in> set selected" by auto
    show ?thesis
    proof (cases "a < aic (f selected) - 1 / 100000000")
      case True
      have eq: "bwd_loop ?F selected = bwd_loop ?F (remove1 v selected)"
        using d b av True v by (subst bwd_loop.simps) simp
      have "0 < length selected" using False by simp
      then have "length (remove1 v selected) < length selected"
        using v by (simp add: length_remove1)
      from less [OF this] obtain r where r: "bwd_loop ?F (remove1 v selected) = Some r"
        and p: "case r of
            Inl e \<Rightarrow> e = ValueError
          | Inr sel \<Rightarrow>
              sel \<noteq> [] \<and> set sel \<subseteq> set (remove1 v selected) \<and>
              (\<forall>v \<in> set sel.
                 \<not> aic (f (filter (\<lambda>u. u \<noteq> v) sel)) < aic (f sel) - 1 / 100000000)"
        by blast
      have "set (remove1 v selected) \<subseteq> set selected" by (rule set_remove1_subset)
      with p have "case r of
            Inl e \<Rightarrow> e = ValueError
          | Inr sel \<Rightarrow>
              sel \<noteq> [] \<and> set sel \<subseteq> set selected \<and>
              (\<forall>v \<in> set sel.
                 \<not> aic (f (filter (\<lambda>u. u \<noteq> v) sel)) < aic (f sel) - 1 / 100000000)"
        by (cases r) auto
      with r eq show ?thesis by simp
    next
      case no: False
      have eq: "bwd_loop ?F selected = Some (Inr selected)"
        using d b av no by (subst bwd_loop.simps) simp
      have "\<forall>u \<in> set selected.
              \<not> aic (f (filter (\<lambda>w. w \<noteq> u) selected)) < aic (f selected) - 1 / 100000000"
      proof
        fix u assume "u \<in> set selected"
        then have "(aic (f (filter (\<lambda>w. w \<noteq> u) selected)), u) \<in> set ?drops" by simp
        with le have "a \<le> aic (f (filter (\<lambda>w. w \<noteq> u) selected))" by fastforce
        with no show "\<not> aic (f (filter (\<lambda>w. w \<noteq> u) selected)) < aic (f selected) - 1 / 100000000"
          by simp
      qed
      with eq False show ?thesis by simp
    qed
  qed
qed


lemma filter_neq_remove1: "distinct xs \<Longrightarrow> filter (\<lambda>v. v \<noteq> x) xs = remove1 x xs"
  by (induction xs) (auto simp: remove1_idem)

lemma aic_candidates_result:
  "aic_candidates fit selected vs = Inr cs \<Longrightarrow>
     \<forall>c \<in> set cs. snd c \<in> set vs \<and> fst c = aic_of fit (selected @ [snd c])"
  by (induction vs arbitrary: cs) (auto simp: aic_of_def split: sum.splits)

lemma rem_aic_result:
  "rem_aic fit selected vs = Inr cs \<Longrightarrow>
     \<forall>c \<in> set cs. fst (snd c) \<in> set vs \<and>
        fst c = aic_of fit (filter (\<lambda>u. u \<noteq> fst (snd c)) selected)"
  by (induction vs arbitrary: cs) (auto simp: aic_of_def split: sum.splits)

lemma lowered_trans: "lowered c2 c1 \<Longrightarrow> lowered c1 c0 \<Longrightarrow> lowered c2 c0"
  by (auto simp: lowered_def)

lemma sw_add_step:
  assumes inv: "sw_inv fit U (sel, rem, cur)"
    and step: "sw_add fit order ((sel, rem, cur), False) = Inr (st1, ch1)"
  shows "sw_inv fit U st1 \<and>
         (if ch1 then lowered (snd (snd st1)) cur else st1 = (sel, rem, cur))"
proof -
  from step obtain add_aic
    where c: "aic_candidates fit sel (list_of_set order rem) = Inr add_aic"
    by (auto split: sum.splits)
  show ?thesis
  proof (cases "add_aic = []")
    case True
    with step c inv show ?thesis by simp
  next
    case False
    with step c obtain b where b: "min_by fst add_aic = Inr b"
      by (auto split: sum.splits)
    obtain a v where av: "b = (a, v)" by (cases b)
    from min_by_Inr [OF b] aic_candidates_result [OF c] av
    have v: "v \<in> set rem" and a: "a = aic_of fit (sel @ [v])" by auto
    show ?thesis
    proof (cases "improves a cur")
      case True
      with step c False b av v have st1: "st1 = (sel @ [v], remove1 v rem, Some a)" and "ch1"
        by simp_all
      have "sw_inv fit U st1"
        using inv v a unfolding st1 sw_inv_def by auto
      moreover have "lowered (Some a) cur"
        using True by (auto simp: improves_def lowered_def)
      ultimately show ?thesis using st1 \<open>ch1\<close> by simp
    next
      case no: False
      with step c False b av have "st1 = (sel, rem, cur)" and "\<not> ch1" by simp_all
      with inv show ?thesis by simp
    qed
  qed
qed

lemma sw_remove_step:
  assumes inv: "sw_inv fit U (sel, rem, cur)"
    and step: "sw_remove fit ((sel, rem, cur), ch) = Inr (st2, ch2)"
  shows "sw_inv fit U st2 \<and>
         (st2 = (sel, rem, cur) \<and> ch2 = ch \<or> ch2 \<and> lowered (snd (snd st2)) cur)"
proof -
  from step obtain rems where c: "rem_aic fit sel sel = Inr rems"
    by (auto split: sum.splits)
  show ?thesis
  proof (cases "rems = []")
    case True
    with step c inv show ?thesis by simp
  next
    case False
    with step c obtain b where b: "min_by fst rems = Inr b"
      by (auto split: sum.splits)
    obtain a v cand where av: "b = (a, v, cand)" by (cases b)
    from step c False b av obtain m_full where m: "fit sel = Inr m_full"
      by (auto split: sum.splits)
    from min_by_Inr [OF b] rem_aic_result [OF c] av
    have v: "v \<in> set sel" and a: "a = aic_of fit (filter (\<lambda>u. u \<noteq> v) sel)" by auto
    have dist: "distinct sel" using inv by (simp add: sw_inv_def)
    have a': "a = aic_of fit (remove1 v sel)" using a filter_neq_remove1 [OF dist] by simp
    show ?thesis
    proof (cases "a < aic m_full - 1 / 100000000")
      case True
      with step c False b av m v
      have st2: "st2 = (remove1 v sel, set_add v rem, Some a)" and "ch2"
        by simp_all
      have "sel \<noteq> []" using v by auto
      then have cur: "cur = Some (aic m_full)"
        using inv m by (simp add: sw_inv_def aic_of_def)
      have "sw_inv fit U st2"
        using inv v a' unfolding st2 sw_inv_def set_add_def by auto
      moreover have "lowered (Some a) cur"
        using True cur by (simp add: lowered_def)
      ultimately show ?thesis using st2 \<open>ch2\<close> by simp
    next
      case no: False
      with step c False b av m have "st2 = (sel, rem, cur)" and "ch2 = ch" by simp_all
      with inv show ?thesis by simp
    qed
  qed
qed

lemma sw_round_step:
  assumes inv: "sw_inv fit U st" and step: "sw_round fit order st = Inr (st', ch)"
  shows "sw_inv fit U st' \<and> (if ch then lowered (snd (snd st')) (snd (snd st)) else st' = st)"
proof -
  obtain sel rem cur where st: "st = (sel, rem, cur)" by (cases st)
  from step obtain st1 ch1 where 1: "sw_add fit order ((sel, rem, cur), False) = Inr (st1, ch1)"
    and 2: "sw_remove fit (st1, ch1) = Inr (st', ch)"
    unfolding sw_round_def st by (auto split: sum.splits)
  obtain sel1 rem1 cur1 where st1: "st1 = (sel1, rem1, cur1)" by (cases st1)
  note s1 = sw_add_step [OF inv [unfolded st] 1]
  from s1 have i1: "sw_inv fit U (sel1, rem1, cur1)" by (simp add: st1)
  from s1 have a: "if ch1 then lowered cur1 cur else st1 = (sel, rem, cur)"
    by (cases ch1) (simp_all add: st1)
  note s2 = sw_remove_step [OF i1 2 [unfolded st1]]
  from s2 have i2: "sw_inv fit U st'" by simp
  from s2 have r: "st' = (sel1, rem1, cur1) \<and> ch = ch1 \<or> ch \<and> lowered (snd (snd st')) cur1"
    by blast
  show ?thesis
  proof (cases ch1)
    case True
    with a have l: "lowered cur1 cur" by simp
    from r True l have "ch \<and> lowered (snd (snd st')) cur"
      by (auto intro: lowered_trans)
    with i2 show ?thesis by (simp add: st)
  next
    case False
    with a have "st1 = (sel, rem, cur)" by simp
    with r False st1 i2 show ?thesis by (auto simp: st)
  qed
qed

lemma sw_measure_less:
  assumes fin: "finite U" and inv: "sw_inv fit U st'"
    and low: "lowered (snd (snd st')) (snd (snd st))"
  shows "sw_measure fit U st' < sw_measure fit U st"
proof -
  obtain sel' rem' cur' where st': "st' = (sel', rem', cur')" by (cases st')
  obtain sel rem cur where st: "st = (sel, rem, cur)" by (cases st)
  let ?L = "{l. set l \<subseteq> U \<and> distinct l}"
  have finL: "finite ?L" using fin by (rule finite_subset_distinct)
  from low obtain c' where c': "cur' = Some c'" and lt: "\<forall>c. cur = Some c \<longrightarrow> c' < c"
    by (auto simp: lowered_def st st')
  from inv c' have mem: "sel' \<in> ?L" and val: "c' = aic_of fit sel'"
    by (auto simp: sw_inv_def st')
  let ?S' = "{l. (set l \<subseteq> U \<and> distinct l) \<and> aic_of fit l < c'}"
  have m': "sw_measure fit U st' = card ?S'" by (simp add: sw_measure_def st' c')
  have "?S' \<subseteq> ?L" by auto
  show ?thesis
  proof (cases cur)
    case None
    have "card ?S' \<le> card ?L" using finL by (intro card_mono) auto
    moreover have "sw_measure fit U st = Suc (card ?L)" by (simp add: sw_measure_def st None)
    ultimately show ?thesis using m' by linarith
  next
    case (Some c)
    let ?S = "{l. (set l \<subseteq> U \<and> distinct l) \<and> aic_of fit l < c}"
    have "c' < c" using lt Some by simp
    then have "?S' \<subseteq> ?S" by auto
    moreover have "sel' \<in> ?S" using mem val \<open>c' < c\<close> by simp
    moreover have "sel' \<notin> ?S'" using val by simp
    ultimately have "?S' \<subset> ?S" by blast
    moreover have "finite ?S" by (rule finite_subset [OF _ finL]) auto
    ultimately have "card ?S' < card ?S" by (rule psubset_card_mono [rotated])
    moreover have "sw_measure fit U st = card ?S" by (simp add: sw_measure_def st Some)
    ultimately show ?thesis using m' by linarith
  qed
qed

lemma sw_add_unchanged: "sw_add fit order (st, False) = Inr (st1, False) \<Longrightarrow> st1 = st"
  by (cases st) (auto split: sum.splits if_splits prod.splits)

lemma sw_remove_unchanged: "sw_remove fit (st1, ch) = Inr (st2, False) \<Longrightarrow> st2 = st1 \<and> \<not> ch"
  by (cases st1) (auto split: sum.splits if_splits prod.splits)

lemma sw_round_unchanged: "sw_round fit order st = Inr (st', False) \<Longrightarrow> st' = st"
proof -
  assume a: "sw_round fit order st = Inr (st', False)"
  then obtain st1 ch1 where 1: "sw_add fit order (st, False) = Inr (st1, ch1)"
    and 2: "sw_remove fit (st1, ch1) = Inr (st', False)"
    unfolding sw_round_def by (auto split: sum.splits)
  from sw_remove_unchanged [OF 2] have "st' = st1" and "\<not> ch1" by simp_all
  with 1 sw_add_unchanged [of fit order st st1] show ?thesis by simp
qed

lemma sw_loop_total:
  assumes "finite U" and "sw_inv fit U st"
  shows "\<exists>r. sw_loop fit order st = Some r \<and>
             (\<forall>st'. r = Inr st' \<longrightarrow> sw_inv fit U st' \<and> sw_round fit order st' = Inr (st', False))"
  using assms(2)
proof (induction "sw_measure fit U st" arbitrary: st rule: less_induct)
  case less
  show ?case
  proof (cases "sw_round fit order st")
    case (Inl e)
    then have "sw_loop fit order st = Some (Inl e)" by (subst sw_loop.simps) simp
    then show ?thesis by simp
  next
    case (Inr r)
    obtain st' ch where r: "r = (st', ch)" by (cases r)
    from sw_round_step [OF less.prems Inr [unfolded r]]
    have inv': "sw_inv fit U st'"
      and c: "if ch then lowered (snd (snd st')) (snd (snd st)) else st' = st"
      by simp_all
    show ?thesis
    proof (cases ch)
      case True
      with c have "lowered (snd (snd st')) (snd (snd st))" by simp
      from sw_measure_less [OF assms(1) inv' this]
      have "sw_measure fit U st' < sw_measure fit U st" .
      from less.hyps [OF this inv']
      obtain r' where "sw_loop fit order st' = Some r'"
        and "\<forall>st''. r' = Inr st'' \<longrightarrow>
               sw_inv fit U st'' \<and> sw_round fit order st'' = Inr (st'', False)"
        by blast
      moreover have "sw_loop fit order st = sw_loop fit order st'"
        using Inr r True by (subst sw_loop.simps) simp
      ultimately show ?thesis by simp
    next
      case False
      with c have same: "st' = st" by simp
      have "sw_loop fit order st = Some (Inr st')"
        using Inr r False by (subst sw_loop.simps) simp
      moreover have "sw_round fit order st' = Inr (st', False)"
        using Inr r False same by simp
      ultimately show ?thesis using inv' by blast
    qed
  qed
qed

lemma sw_inv_init: "sw_inv fit (set factors) ([], remdups factors, None)"
  by (simp add: sw_inv_def)

lemma selection_loops_end:
  "(\<exists>r. selected_bwd fit factors = Some r) \<and>
   (\<exists>r. selected_sw fit order factors = Some r \<and>
        (\<forall>st. r = Inr st \<longrightarrow> sw_round fit order st = Inr (st, False)))"
proof
  show "\<exists>r. selected_bwd fit factors = Some r"
    unfolding selected_bwd_def by (rule bwd_loop_terminates)
next
  from sw_loop_total [OF _ sw_inv_init, of factors fit order]
  show "\<exists>r. selected_sw fit order factors = Some r \<and>
        (\<forall>st. r = Inr st \<longrightarrow> sw_round fit order st = Inr (st, False))"
    unfolding selected_sw_def by auto
qed







text \<open>
  Claim C9 says that each selection loop ends, the backward loop when no single removal
  lowers the AIC of the current model by more than \<open>1e-8\<close>. Both loops do end on every
  input (\<open>selection_loops_end\<close>), and the stepwise loop ends in a state that a full round
  leaves as it is. But the backward loop has a second way to end: once its removals have
  emptied the selection, \<^verbatim>\<open>aic_drop\<close> is empty and \<^verbatim>\<open>min\<close> raises \<^verbatim>\<open>ValueError\<close> (line 199),
  which ends the script. The stepwise loop guards the same step with \<^verbatim>\<open>if rem_aic:\<close>
  (line 232). On the two noise factors of \<open>crit_noise\<close> the backward loop removes \<^verbatim>\<open>HML\<close>,
  then \<^verbatim>\<open>SMB\<close>, and dies; the stepwise loop on the same input adds \<^verbatim>\<open>SMB\<close>, removes it and
  ends with the empty selection. (\<open>bwd_loop_total\<close> and \<open>bwd_loop_returns\<close> say when the
  backward loop returns a selection.)
\<close>

theorem backward_loop_dies_on_emptied_selection:
  "selected_bwd fit_noise [''SMB'', ''HML''] = Some (Inl ValueError) \<and>
   selected_sw fit_noise (\<lambda>s. s) [''SMB'', ''HML''] =
     Some (Inr ([], [''HML'', ''SMB''], Some 100))"
proof -
  have b: "selected_bwd fit_noise [''SMB'', ''HML''] = Some (Inl ValueError)"
    by (simp add: selected_bwd_def bwd_loop.simps fit_noise_def crit_noise_def)
  have s: "selected_sw fit_noise (\<lambda>s. s) [''SMB'', ''HML''] =
     Some (Inr ([], [''HML'', ''SMB''], Some 100))"
    by (simp add: selected_sw_def sw_loop.simps sw_round_def fit_noise_def crit_noise_def
        list_of_set_def improves_def set_add_def)
  from b s show ?thesis by simp
qed


section \<open>Rank-deficient candidates\<close>




end
